theory Spec2Isabelle
  imports Complex_Main
begin

section \<open>The Art-Net output module (outputartnet.py)\<close>

text \<open>
  The module keeps a frame of 512 DMX channel levels, refreshes it once per pass of its
  main loop from named control values, and broadcasts it when a level changed or when
  more than half a second went by since the last broadcast. On a stop signal it sends a
  blank frame several times and closes the socket.

  The embedding follows the Python functions \<open>_start\<close>, \<open>_loop_once\<close>,
  \<open>_loop_forever\<close>, \<open>_stop\<close> and the \<open>__main__\<close> block. The module's
  globals are the fields of one record that every function takes and returns. Calls that
  leave the program (the socket, the clock, the monitor, \<open>time.sleep\<close>) append an
  event to a trace; what the outside world answers (values read, clock readings, whether
  a call raises) is an argument of the function that asks. Python floats are taken as
  exact reals.
\<close>

subsection \<open>Exceptions, outcomes of outside calls, observable events\<close>

datatype exn = SystemExit | KeyboardInterrupt | RuntimeError | OSError | ValueError | IndexError

text \<open>
  A call into the socket layer or into \<open>time.sleep\<close> either returns or raises. The
  module discards every return value of \<open>broadcastDMX\<close>, so a status that is merely
  returned is a case of \<open>Returns\<close>.
\<close>

datatype outcome = Returns | Raises exn

datatype event =
    Info_universe_size nat
  | Info_channel nat int
  | BroadcastDMX "int list" "int list"
  | Sleep real
  | Close
  | Success_stopping
  | Success_done

subsection \<open>The globals\<close>

record engine =
  address :: "int list"
  dmxsize :: nat
  dmxframe :: "int list"
  prevtime :: real
  update :: bool
  trace :: "event list"

text \<open>Before \<open>_start\<close> none of the globals is bound; the record holds placeholders.\<close>

definition unbound :: engine where
  "unbound = \<lparr>address = [], dmxsize = 0, dmxframe = [], prevtime = 0, update = False, trace = []\<rparr>"

type_synonym result = "exn \<times> engine + engine"

text \<open>\<open>Inl (e, s)\<close>: exception \<open>e\<close> left the function with the globals as in \<open>s\<close>.\<close>

definition and_then :: "result \<Rightarrow> (engine \<Rightarrow> result) \<Rightarrow> result" where
  "and_then r f = (case r of Inl x \<Rightarrow> Inl x | Inr s \<Rightarrow> f s)"

definition emit :: "event \<Rightarrow> engine \<Rightarrow> engine" where
  "emit ev s = s\<lparr>trace := trace s @ [ev]\<rparr>"

subsection \<open>Outside calls\<close>

text \<open>
  \<open>artnet.broadcastDMX(dmxframe, address)\<close>: the call is recorded with its two
  arguments, then it returns or raises as the outside world decides.
\<close>

definition broadcastDMX :: "outcome \<Rightarrow> int list \<Rightarrow> int list \<Rightarrow> engine \<Rightarrow> result" where
  "broadcastDMX oc frame addr s =
     (let s' = emit (BroadcastDMX frame addr) s
      in case oc of Returns \<Rightarrow> Inr s' | Raises e \<Rightarrow> Inl (e, s'))"

text \<open>\<open>time.sleep(d)\<close>; a signal that arrives meanwhile is raised from the call.\<close>

definition sleep :: "outcome \<Rightarrow> real \<Rightarrow> engine \<Rightarrow> result" where
  "sleep oc d s =
     (let s' = emit (Sleep d) s
      in case oc of Returns \<Rightarrow> Inr s' | Raises e \<Rightarrow> Inl (e, s'))"

subsection \<open>Channel names\<close>

text \<open>\<open>"channel%03d" % (chanindx + 1)\<close>.\<close>

definition digit :: "nat \<Rightarrow> char" where
  "digit d = ''0123456789'' ! d"

fun decimal :: "nat \<Rightarrow> string" where
  "decimal n = (if n < 10 then [digit n] else decimal (n div 10) @ [digit (n mod 10)])"

declare decimal.simps [simp del]

definition format_03d :: "nat \<Rightarrow> string" where
  "format_03d n = (let ds = decimal n in replicate (3 - length ds) (CHR ''0'') @ ds)"

definition chanstr :: "nat \<Rightarrow> string" where
  "chanstr chanindx = ''channel'' @ format_03d (chanindx + 1)"

subsection \<open>Helpers of the shared library\<close>

text \<open>
  Modelled from the spec: \<open>EEGsynth.rescale\<close> lives in the shared library, which is
  not among the sources at hand. The specification gives the level as
  \<open>clamp(v * scale + offset, 0, 255)\<close>; \<open>rescale\<close> is the linear transform in it.
\<close>

definition rescale :: "real \<Rightarrow> real \<Rightarrow> real \<Rightarrow> real" where
  "rescale xval slope offset = xval * slope + offset"

text \<open>
  Modelled from the spec: \<open>EEGsynth.limit\<close>, from the same library, is the clamp of
  that formula, to the closed interval from \<open>lo\<close> to \<open>hi\<close>.
\<close>

definition limit :: "real \<Rightarrow> real \<Rightarrow> real \<Rightarrow> real" where
  "limit xval lo hi = (if xval < lo then lo else if xval > hi then hi else xval)"

text \<open>Python's \<open>int(x)\<close> on a float drops the fraction (towards zero).\<close>

definition py_int :: "real \<Rightarrow> int" where
  "py_int x = (if x < 0 then \<lceil>x\<rceil> else \<lfloor>x\<rfloor>)"

subsection \<open>What one pass of the loop reads from outside\<close>

text \<open>
  \<open>patch.getfloat(section, key)\<close> answers with a float or with \<open>None\<close>. Every key
  is asked for at most once per pass, so one function per section describes a pass.
  \<open>now_test\<close> is the clock reading compared with \<open>prevtime\<close>, \<open>now_sent\<close>
  the reading stored after a broadcast.
\<close>

record cycle =
  getfloat_input :: "string \<Rightarrow> real option"
  getfloat_scale :: "string \<Rightarrow> real option"
  getfloat_offset :: "string \<Rightarrow> real option"
  send :: outcome
  now_test :: real
  now_sent :: real
  getfloat_delay :: real
  signal :: outcome

definition with_default :: "'a option \<Rightarrow> 'a \<Rightarrow> 'a" where
  "with_default r d = (case r of None \<Rightarrow> d | Some v \<Rightarrow> v)"

subsection \<open>\<open>_loop_once\<close>\<close>

text \<open>
  The value computed for one channel in the body of the \<open>for\<close> loop; \<open>None\<close>
  stands for the \<open>continue\<close> taken when the control value is not present.
\<close>

definition chanval :: "cycle \<Rightarrow> nat \<Rightarrow> int option" where
  "chanval c chanindx =
     (case getfloat_input c (chanstr chanindx) of
        None \<Rightarrow> None
      | Some v \<Rightarrow>
          (let scale = with_default (getfloat_scale c (chanstr chanindx)) 255;
               offset = with_default (getfloat_offset c (chanstr chanindx)) 0;
               v1 = rescale v scale offset;
               v2 = limit v1 0 255
           in Some (py_int v2)))"

text \<open>
  The rest of the loop body: compare with the stored level, and on a difference notify
  the monitor, store the level and set \<open>update\<close>. Indexing past the end of the list
  raises \<open>IndexError\<close>.
\<close>

definition channel_step :: "cycle \<Rightarrow> nat \<Rightarrow> engine \<Rightarrow> result" where
  "channel_step c chanindx s =
     (case chanval c chanindx of
        None \<Rightarrow> Inr s
      | Some v \<Rightarrow>
          if chanindx < length (dmxframe s) then
            (if dmxframe s ! chanindx \<noteq> v
             then Inr ((emit (Info_channel chanindx v) s)
                        \<lparr>dmxframe := (dmxframe s)[chanindx := v], update := True\<rparr>)
             else Inr s)
          else Inl (IndexError, s))"

fun scan :: "cycle \<Rightarrow> nat list \<Rightarrow> engine \<Rightarrow> result" where
  "scan c [] s = Inr s"
| "scan c (chanindx # rest) s =
     (case channel_step c chanindx s of
        Inl x \<Rightarrow> Inl x
      | Inr s' \<Rightarrow> scan c rest s')"

definition transmit :: "cycle \<Rightarrow> engine \<Rightarrow> result" where
  "transmit c s =
     (if update s then
        and_then (broadcastDMX (send c) (dmxframe s) (address s) s)
          (\<lambda>s. Inr (s\<lparr>prevtime := now_sent c\<rparr>))
      else if now_test c - prevtime s > 0.5 then
        and_then (broadcastDMX (send c) (dmxframe s) (address s) s)
          (\<lambda>s. Inr (s\<lparr>prevtime := now_sent c\<rparr>))
      else Inr s)"

definition loop_once :: "cycle \<Rightarrow> engine \<Rightarrow> result" where
  "loop_once c s =
     and_then (scan c [0..<dmxsize s] (s\<lparr>update := False\<rparr>)) (transmit c)"

subsection \<open>\<open>_loop_forever\<close>\<close>

text \<open>
  The loop has no exit of its own. It is run against the passes the outside world
  provides: \<open>Inr\<close> says that the loop is still going after the last of them, \<open>Inl\<close>
  that an exception left it. \<open>monitor.loop()\<close> touches none of the globals and is left
  out. A signal (the interrupt key, a request to exit) is delivered while the loop
  sleeps, where it spends its time.
\<close>

fun loop_forever :: "cycle list \<Rightarrow> engine \<Rightarrow> result" where
  "loop_forever [] s = Inr s"
| "loop_forever (c # cs) s =
     (case loop_once c s of
        Inl x \<Rightarrow> Inl x
      | Inr s1 \<Rightarrow>
          (case sleep (signal c) (getfloat_delay c) s1 of
             Inl x \<Rightarrow> Inl x
           | Inr s2 \<Rightarrow> loop_forever cs s2))"

subsection \<open>\<open>_start\<close>\<close>

text \<open>What \<open>_start\<close> reads: the configuration, the outcome of its broadcast, the clock.\<close>

record patch =
  getint_universe :: int
  items_input :: "(string \<times> string) list"
  send_start :: outcome
  now_start :: real

text \<open>
  Unpacking \<open>zip(*items)\<close> into \<open>chanlist, chanvals\<close> needs exactly two columns:
  the items are pairs, so only an empty section fails, with \<open>ValueError\<close>. The size
  found by the search for the last configured channel is overwritten by 512.
\<close>

definition start :: "patch \<Rightarrow> engine \<Rightarrow> result" where
  "start p s0 =
     (let s = s0\<lparr>address := [0, 0, getint_universe p]\<rparr>;
          s = s\<lparr>dmxsize := 0\<rparr>
      in if items_input p = [] then Inl (ValueError, s)
         else
           (let chanlist = map fst (items_input p);
                s = s\<lparr>dmxsize :=
                      foldl (\<lambda>size chanindx.
                               if chanstr chanindx \<in> set chanlist then chanindx + 1 else size)
                            (dmxsize s) [0..<512]\<rparr>;
                s = s\<lparr>dmxsize := 512\<rparr>;
                s = emit (Info_universe_size (dmxsize s)) s;
                s = s\<lparr>dmxframe := replicate (dmxsize s) 0\<rparr>
            in and_then (broadcastDMX (send_start p) (dmxframe s) (address s) s)
                 (\<lambda>s. Inr (s\<lparr>prevtime := now_start p\<rparr>))))"

subsection \<open>\<open>_stop\<close>\<close>

text \<open>
  \<open>dmxframe\<close> is assigned in \<open>_stop\<close> without a \<open>global\<close> declaration, so the
  blank frame is a local list and the global frame keeps its levels; \<open>address\<close> is
  only read and is the global. \<open>sends k\<close> is the outcome of the broadcast number
  \<open>k\<close> of the sequence and \<open>naps k\<close> the outcome of the sleep that follows it: a
  signal that arrives during the shutdown is raised from the sleep, as in the loop.
\<close>

definition stop :: "(nat \<Rightarrow> outcome) \<Rightarrow> (nat \<Rightarrow> outcome) \<Rightarrow> engine \<Rightarrow> result" where
  "stop sends naps s0 =
     (let s = emit Success_stopping s0;
          local_dmxframe = replicate 512 0
      in and_then (broadcastDMX (sends 0) local_dmxframe (address s) s) (\<lambda>s.
         and_then (sleep (naps 0) 0.1 s) (\<lambda>s.
         and_then (broadcastDMX (sends 1) local_dmxframe (address s) s) (\<lambda>s.
         and_then (sleep (naps 1) 0.1 s) (\<lambda>s.
         and_then (broadcastDMX (sends 2) local_dmxframe (address s) s) (\<lambda>s.
         and_then (sleep (naps 2) 0.1 s) (\<lambda>s.
         and_then (broadcastDMX (sends 3) local_dmxframe (address s) s) (\<lambda>s.
         and_then (sleep (naps 3) 0.1 s) (\<lambda>s.
         and_then (broadcastDMX (sends 4) local_dmxframe (address s) s) (\<lambda>s.
         and_then (sleep (naps 4) 0.1 s) (\<lambda>s.
         and_then (broadcastDMX (sends 5) local_dmxframe (address s) s) (\<lambda>s.
         and_then (sleep (naps 5) 0.1 s) (\<lambda>s.
         Inr (emit Success_done (emit Close s)))))))))))))))"

subsection \<open>The \<open>__main__\<close> block\<close>

datatype status = Running | Exited | Crashed exn

text \<open>
  \<open>_setup\<close> only creates the patch and the monitor, which are outside calls here.
  \<open>_start\<close> runs outside the \<open>try\<close>. The handler takes \<open>SystemExit\<close>,
  \<open>KeyboardInterrupt\<close> and \<open>RuntimeError\<close> from the loop and runs \<open>_stop\<close>,
  after which \<open>sys.exit()\<close> ends the process. Any other exception, and any exception
  raised by \<open>_stop\<close> itself, ends the process uncaught.
\<close>

definition caught :: "exn \<Rightarrow> bool" where
  "caught e = (e = SystemExit \<or> e = KeyboardInterrupt \<or> e = RuntimeError)"

definition main ::
  "patch \<Rightarrow> cycle list \<Rightarrow> (nat \<Rightarrow> outcome) \<Rightarrow> (nat \<Rightarrow> outcome) \<Rightarrow> status \<times> engine" where
  "main p cycles sends naps =
     (case start p unbound of
        Inl (e, s) \<Rightarrow> (Crashed e, s)
      | Inr s \<Rightarrow>
          (case loop_forever cycles s of
             Inr s' \<Rightarrow> (Running, s')
           | Inl (e, s') \<Rightarrow>
               if caught e then
                 (case stop sends naps s' of
                    Inr s'' \<Rightarrow> (Exited, s'')
                  | Inl (e', s'') \<Rightarrow> (Crashed e', s''))
               else (Crashed e, s')))"

subsection \<open>Notions used in the statements\<close>

text \<open>The globals at the moment a function is left, by return or by exception.\<close>

definition final :: "result \<Rightarrow> engine" where
  "final r = (case r of Inl (e, s) \<Rightarrow> s | Inr s \<Rightarrow> s)"

text \<open>
  Specification side: the channels among \<open>idxs\<close>, in that order, whose computed level
  differs from the level stored in \<open>frame\<close>, each with the computed level.
\<close>

definition changes :: "cycle \<Rightarrow> int list \<Rightarrow> nat list \<Rightarrow> (nat \<times> int) list" where
  "changes c frame idxs =
     concat (map (\<lambda>i. case chanval c i of
                          None \<Rightarrow> []
                        | Some v \<Rightarrow> if frame ! i \<noteq> v then [(i, v)] else []) idxs)"

text \<open>
  Specification side: the level as the specification's Value Mapper words it, the
  clamped linear transform rounded to the nearest integer.
\<close>

definition spec_level :: "real \<Rightarrow> real \<Rightarrow> real \<Rightarrow> int" where
  "spec_level v scale offset = round (max 0 (min 255 (v * scale + offset)))"

text \<open>
  \<open>continues s s'\<close>: from \<open>s\<close> to \<open>s'\<close> the address, the size and the length of
  the frame stayed, the trace only grew, and every broadcast that was added went to the
  address of \<open>s\<close> with a frame of 512 levels or of the length of the frame of \<open>s\<close>.
\<close>

definition continues :: "engine \<Rightarrow> engine \<Rightarrow> bool" where
  "continues s s' =
     (address s' = address s \<and> dmxsize s' = dmxsize s \<and>
      length (dmxframe s') = length (dmxframe s) \<and>
      (\<exists>evs. trace s' = trace s @ evs \<and>
         (\<forall>f a. BroadcastDMX f a \<in> set evs \<longrightarrow>
            a = address s \<and> (length f = 512 \<or> length f = length (dmxframe s)))))"

subsection \<open>Sample inputs\<close>

text \<open>
  A configuration with one input channel on universe 3, the globals it leads to after
  \<open>_start\<close>, and a pass of the loop in which \<open>channel001\<close> reads 0.01 with the
  default scale and offset.
\<close>

definition demo_patch :: patch where
  "demo_patch =
     \<lparr>getint_universe = 3, items_input = [(''channel001'', ''slider'')],
      send_start = Returns, now_start = 0\<rparr>"

definition demo_engine :: engine where
  "demo_engine =
     \<lparr>address = [0, 0, 3], dmxsize = 512, dmxframe = replicate 512 0, prevtime = 0,
      update = False,
      trace = [Info_universe_size 512, BroadcastDMX (replicate 512 0) [0, 0, 3]]\<rparr>"

definition demo_cycle :: cycle where
  "demo_cycle =
     \<lparr>getfloat_input = (\<lambda>k. if k = ''channel001'' then Some 0.01 else None),
      getfloat_scale = (\<lambda>k. None), getfloat_offset = (\<lambda>k. None),
      send = Returns, now_test = 1, now_sent = 1, getfloat_delay = 0.05,
      signal = Returns\<rparr>"

text \<open>
  A pass in which no control value is present and the broadcast raises \<open>OSError\<close>, as
  a socket does when the network is unreachable.
\<close>

definition silent_cycle :: cycle where
  "silent_cycle = demo_cycle\<lparr>getfloat_input := (\<lambda>k. None), send := Raises OSError\<rparr>"


text \<open>Outside calls of a shutdown that all return.\<close>

definition returning :: "nat \<Rightarrow> outcome" where
  "returning k = Returns"


section \<open>Properties\<close>

subsection \<open>Results and outside calls\<close>

lemma and_then_Inr [simp]: "and_then (Inr s) f = f s"
  by (simp add: and_then_def)

lemma and_then_Inl [simp]: "and_then (Inl x) f = Inl x"
  by (simp add: and_then_def)

lemma final_Inr [simp]: "final (Inr s) = s"
  by (simp add: final_def)

lemma final_Inl [simp]: "final (Inl (e, s)) = s"
  by (simp add: final_def)

lemma broadcastDMX_Returns: "broadcastDMX Returns f a s = Inr (emit (BroadcastDMX f a) s)"
  by (simp add: broadcastDMX_def)

lemma broadcastDMX_Raises: "broadcastDMX (Raises e) f a s = Inl (e, emit (BroadcastDMX f a) s)"
  by (simp add: broadcastDMX_def)

lemma final_broadcastDMX: "final (broadcastDMX oc f a s) = emit (BroadcastDMX f a) s"
  by (cases oc) (simp_all add: broadcastDMX_def)

lemma final_sleep: "final (sleep oc d s) = emit (Sleep d) s"
  by (cases oc) (simp_all add: sleep_def)

subsection \<open>Mapping a control value to a level\<close>

lemma py_int_nonneg: "0 \<le> x \<Longrightarrow> py_int x = \<lfloor>x\<rfloor>"
  by (simp add: py_int_def)

lemma limit_max_min: "lo \<le> hi \<Longrightarrow> limit x lo hi = max lo (min hi x)"
  by (simp add: limit_def max_def min_def)

lemma limit_bounds: "lo \<le> hi \<Longrightarrow> lo \<le> limit x lo hi \<and> limit x lo hi \<le> hi"
  by (simp add: limit_def)

lemma level_bounds: "0 \<le> py_int (limit x 0 255) \<and> py_int (limit x 0 255) \<le> 255"
proof -
  have b: "0 \<le> limit x 0 255 \<and> limit x 0 255 \<le> 255"
    using limit_bounds [of 0 255 x] by simp
  then have "py_int (limit x 0 255) = \<lfloor>limit x 0 255\<rfloor>"
    by (simp add: py_int_nonneg)
  moreover have "0 \<le> \<lfloor>limit x 0 255\<rfloor>" using b by simp
  moreover have "\<lfloor>limit x 0 255\<rfloor> \<le> 255" using b by (simp add: floor_le_iff)
  ultimately show ?thesis by simp
qed

lemma level_floor_clamp:
  "py_int (limit (rescale v scale offset) 0 255) = \<lfloor>max 0 (min 255 (v * scale + offset))\<rfloor>"
proof -
  have "0 \<le> limit (rescale v scale offset) 0 255"
    using limit_bounds [of 0 255] by simp
  then show ?thesis
    by (simp add: py_int_nonneg limit_max_min rescale_def)
qed

lemma chanval_present:
  "getfloat_input c (chanstr i) = Some v \<Longrightarrow>
   chanval c i =
     Some \<lfloor>max 0 (min 255 (v * with_default (getfloat_scale c (chanstr i)) 255
                               + with_default (getfloat_offset c (chanstr i)) 0))\<rfloor>"
  by (simp add: chanval_def Let_def level_floor_clamp)

lemma chanval_absent: "getfloat_input c (chanstr i) = None \<Longrightarrow> chanval c i = None"
  by (simp add: chanval_def)

lemma chanstr_0: "chanstr 0 = ''channel001''"
  by (simp add: chanstr_def format_03d_def decimal.simps digit_def eval_nat_numeral)

lemma demo_chanval_0: "chanval demo_cycle 0 = Some 2"
  by (simp add: chanval_def chanstr_0 demo_cycle_def with_default_def rescale_def limit_def
      py_int_def)

text \<open>
  C4. Whatever the raw value, the scale and the offset, the level computed for a channel
  is an integer from 0 to 255.
\<close>

theorem chanval_in_range: "chanval c chanindx = Some v \<Longrightarrow> 0 \<le> v \<and> v \<le> 255"
  unfolding chanval_def using level_bounds
  by (auto simp: Let_def split: option.splits)

theorem chanval_in_range_witness:
  "chanval (demo_cycle\<lparr>getfloat_input := \<lambda>k. Some 1000\<rparr>) 7 = Some 255 \<and>
   (0::int) \<le> 255 \<and> (255::int) \<le> 255"
proof -
  have h: "chanval (demo_cycle\<lparr>getfloat_input := \<lambda>k. Some 1000\<rparr>) 7 = Some 255"
    by (simp add: chanval_def demo_cycle_def with_default_def rescale_def limit_def py_int_def)
  show ?thesis using h chanval_in_range [OF h] by simp
qed

text \<open>
  C3, as the specification states it, fails: with the default scale 255 and offset 0 the
  raw value 0.01 gives 2.55, which the module stores as 2, while the nearest integer is 3.
\<close>

theorem level_not_rounded_counterexample:
  "getfloat_input demo_cycle (chanstr 0) = Some (1 / 100) \<and>
   dmxframe (final (channel_step demo_cycle 0 demo_engine)) ! 0 = 2 \<and>
   spec_level (1 / 100) 255 0 = 3"
  by (simp add: chanstr_0 channel_step_def demo_chanval_0 final_def emit_def spec_level_def
      round_def, simp add: demo_cycle_def demo_engine_def)

subsection \<open>The scan of the channels\<close>

lemma channel_step_in_range:
  assumes "i < length (dmxframe s)"
  shows "channel_step c i s =
           Inr (s\<lparr>dmxframe := (case chanval c i of None \<Rightarrow> dmxframe s | Some v \<Rightarrow> (dmxframe s)[i := v]),
                  update := (update s \<or> changes c (dmxframe s) [i] \<noteq> []),
                  trace := trace s @ map (\<lambda>(i, v). Info_channel i v) (changes c (dmxframe s) [i])\<rparr>)"
  using assms
  by (cases "chanval c i") (auto simp: channel_step_def changes_def emit_def)

lemma changes_Cons:
  "changes c frame (i # idxs) = changes c frame [i] @ changes c frame idxs"
  by (simp add: changes_def)

lemma changes_cong:
  "(\<And>j. j \<in> set idxs \<Longrightarrow> frame ! j = frame' ! j) \<Longrightarrow> changes c frame idxs = changes c frame' idxs"
  unfolding changes_def
  by (induction idxs) (auto split: option.splits)

lemma changes_empty_iff:
  "changes c frame idxs = [] \<longleftrightarrow> \<not> (\<exists>i\<in>set idxs. \<exists>v. chanval c i = Some v \<and> frame ! i \<noteq> v)"
  unfolding changes_def
  by (induction idxs) (auto split: option.splits)

lemma scan_in_range:
  assumes "\<forall>i\<in>set idxs. i < length (dmxframe s)" and "distinct idxs"
  shows "\<exists>s'. scan c idxs s = Inr s' \<and>
           address s' = address s \<and> dmxsize s' = dmxsize s \<and> prevtime s' = prevtime s \<and>
           length (dmxframe s') = length (dmxframe s) \<and>
           (\<forall>j < length (dmxframe s). dmxframe s' ! j =
               (if j \<in> set idxs then with_default (chanval c j) (dmxframe s ! j) else dmxframe s ! j)) \<and>
           update s' = (update s \<or> changes c (dmxframe s) idxs \<noteq> []) \<and>
           trace s' = trace s @ map (\<lambda>(i, v). Info_channel i v) (changes c (dmxframe s) idxs)"
  using assms
proof (induction idxs arbitrary: s)
  case Nil
  then show ?case by (simp add: changes_def)
next
  case (Cons i idxs)
  define s1 where "s1 = s\<lparr>dmxframe := (case chanval c i of None \<Rightarrow> dmxframe s | Some v \<Rightarrow> (dmxframe s)[i := v]),
                  update := (update s \<or> changes c (dmxframe s) [i] \<noteq> []),
                  trace := trace s @ map (\<lambda>(i, v). Info_channel i v) (changes c (dmxframe s) [i])\<rparr>"
  have i: "i < length (dmxframe s)" using Cons.prems by simp
  have step: "channel_step c i s = Inr s1"
    unfolding s1_def using channel_step_in_range [OF i] .
  have len1: "length (dmxframe s1) = length (dmxframe s)"
    by (simp add: s1_def split: option.splits)
  have other: "\<And>j. j \<noteq> i \<Longrightarrow> dmxframe s1 ! j = dmxframe s ! j"
    by (simp add: s1_def split: option.splits)
  have at_i: "dmxframe s1 ! i = with_default (chanval c i) (dmxframe s ! i)"
    using i by (simp add: s1_def with_default_def split: option.splits)
  have fields1: "address s1 = address s" "dmxsize s1 = dmxsize s" "prevtime s1 = prevtime s"
    by (simp_all add: s1_def)
  have "\<forall>j\<in>set idxs. j < length (dmxframe s1)" using Cons.prems len1 by simp
  moreover have "distinct idxs" using Cons.prems by simp
  ultimately obtain s' where s':
    "scan c idxs s1 = Inr s'" "address s' = address s1" "dmxsize s' = dmxsize s1"
    "prevtime s' = prevtime s1" "length (dmxframe s') = length (dmxframe s1)"
    "\<forall>j < length (dmxframe s1). dmxframe s' ! j =
        (if j \<in> set idxs then with_default (chanval c j) (dmxframe s1 ! j) else dmxframe s1 ! j)"
    "update s' = (update s1 \<or> changes c (dmxframe s1) idxs \<noteq> [])"
    "trace s' = trace s1 @ map (\<lambda>(i, v). Info_channel i v) (changes c (dmxframe s1) idxs)"
    using Cons.IH [of s1] by blast
  have notin: "i \<notin> set idxs" using Cons.prems by simp
  have same: "changes c (dmxframe s1) idxs = changes c (dmxframe s) idxs"
  proof (rule changes_cong)
    fix j assume "j \<in> set idxs"
    then have "j \<noteq> i" using notin by auto
    then show "dmxframe s1 ! j = dmxframe s ! j" by (rule other)
  qed
  have scan: "scan c (i # idxs) s = Inr s'"
    using step s'(1) by simp
  have frame: "\<forall>j < length (dmxframe s). dmxframe s' ! j =
       (if j \<in> set (i # idxs) then with_default (chanval c j) (dmxframe s ! j) else dmxframe s ! j)"
  proof (intro allI impI)
    fix j assume j: "j < length (dmxframe s)"
    show "dmxframe s' ! j =
       (if j \<in> set (i # idxs) then with_default (chanval c j) (dmxframe s ! j) else dmxframe s ! j)"
    proof (cases "j = i")
      case True
      then show ?thesis using s'(6) j len1 notin at_i by simp
    next
      case False
      then show ?thesis using s'(6) j len1 other by simp
    qed
  qed
  have upd: "update s' = (update s \<or> changes c (dmxframe s) (i # idxs) \<noteq> [])"
    using s'(7) same by (subst changes_Cons) (auto simp: s1_def)
  have tr: "trace s' = trace s @ map (\<lambda>(i, v). Info_channel i v) (changes c (dmxframe s) (i # idxs))"
    using s'(8) same by (subst changes_Cons) (simp add: s1_def)
  show ?case
    using scan frame upd tr s'(2-5) fields1 len1 by simp
qed


lemma scan_all:
  assumes "length (dmxframe s) = dmxsize s"
  shows "\<exists>s'. scan c [0..<dmxsize s] (s\<lparr>update := False\<rparr>) = Inr s' \<and>
           address s' = address s \<and> dmxsize s' = dmxsize s \<and> prevtime s' = prevtime s \<and>
           length (dmxframe s') = length (dmxframe s) \<and>
           (\<forall>j < dmxsize s. dmxframe s' ! j = with_default (chanval c j) (dmxframe s ! j)) \<and>
           update s' = (changes c (dmxframe s) [0..<dmxsize s] \<noteq> []) \<and>
           trace s' = trace s @ map (\<lambda>(i, v). Info_channel i v) (changes c (dmxframe s) [0..<dmxsize s])"
  using scan_in_range [of "[0..<dmxsize s]" "s\<lparr>update := False\<rparr>" c] assms
  by auto

text \<open>
  C3, amended. For a channel whose raw value \<open>v\<close> is present, the level in the frame
  after the scan is the clamped linear transform with its fraction dropped.
\<close>

theorem stored_level_truncated:
  assumes "length (dmxframe s) = dmxsize s" and "i < dmxsize s"
    and "getfloat_input c (chanstr i) = Some v"
  shows "\<exists>s'. scan c [0..<dmxsize s] (s\<lparr>update := False\<rparr>) = Inr s' \<and>
           dmxframe s' ! i =
             \<lfloor>max 0 (min 255 (v * with_default (getfloat_scale c (chanstr i)) 255
                                  + with_default (getfloat_offset c (chanstr i)) 0))\<rfloor>"
proof -
  obtain s' where s': "scan c [0..<dmxsize s] (s\<lparr>update := False\<rparr>) = Inr s'"
    "\<forall>j < dmxsize s. dmxframe s' ! j = with_default (chanval c j) (dmxframe s ! j)"
    using scan_all [OF assms(1), of c] by blast
  have "dmxframe s' ! i = with_default (chanval c i) (dmxframe s ! i)"
    using s'(2) assms(2) by simp
  then show ?thesis
    using s'(1) chanval_present [OF assms(3)] by (simp add: with_default_def)
qed

theorem stored_level_truncated_witness:
  "length (dmxframe demo_engine) = dmxsize demo_engine \<and> 0 < dmxsize demo_engine \<and>
   getfloat_input demo_cycle (chanstr 0) = Some (1 / 100) \<and>
   (\<exists>s'. scan demo_cycle [0..<dmxsize demo_engine] (demo_engine\<lparr>update := False\<rparr>) = Inr s' \<and>
          dmxframe s' ! 0 = 2)"
proof -
  have h1: "length (dmxframe demo_engine) = dmxsize demo_engine"
    by (simp add: demo_engine_def)
  have h2: "0 < dmxsize demo_engine"
    by (simp add: demo_engine_def)
  have h3: "getfloat_input demo_cycle (chanstr 0) = Some (1 / 100)"
    by (simp add: chanstr_0 demo_cycle_def)
  have v: "\<lfloor>max 0 (min 255 ((1 / 100) * with_default (getfloat_scale demo_cycle (chanstr 0)) 255
              + with_default (getfloat_offset demo_cycle (chanstr 0)) 0))\<rfloor> = (2::int)"
    by (simp add: demo_cycle_def with_default_def)
  show ?thesis
    using h1 h2 h3 stored_level_truncated [OF h1 h2 h3] v by simp
qed

text \<open>
  C2. With the frame as long as the universe, the scan of all channels returns; at its
  end \<open>update\<close> is set exactly when some channel's computed level differs from the
  stored one; each such channel holds its new level afterwards; and the monitor was told
  of exactly these channels, in order, with their new levels.
\<close>

theorem update_iff_level_differs:
  assumes "length (dmxframe s) = dmxsize s"
  shows "\<exists>s'. scan c [0..<dmxsize s] (s\<lparr>update := False\<rparr>) = Inr s' \<and>
           (update s' \<longleftrightarrow> (\<exists>i < dmxsize s. \<exists>v. chanval c i = Some v \<and> v \<noteq> dmxframe s ! i)) \<and>
           (\<forall>i < dmxsize s. \<forall>v. chanval c i = Some v \<and> v \<noteq> dmxframe s ! i \<longrightarrow>
                dmxframe s' ! i = v \<and> Info_channel i v \<in> set (trace s')) \<and>
           trace s' = trace s @ map (\<lambda>(i, v). Info_channel i v)
                                    (changes c (dmxframe s) [0..<dmxsize s])"
proof -
  obtain s' where s': "scan c [0..<dmxsize s] (s\<lparr>update := False\<rparr>) = Inr s'"
    "\<forall>j < dmxsize s. dmxframe s' ! j = with_default (chanval c j) (dmxframe s ! j)"
    "update s' = (changes c (dmxframe s) [0..<dmxsize s] \<noteq> [])"
    "trace s' = trace s @ map (\<lambda>(i, v). Info_channel i v) (changes c (dmxframe s) [0..<dmxsize s])"
    using scan_all [OF assms, of c] by blast
  have upd: "update s' \<longleftrightarrow> (\<exists>i < dmxsize s. \<exists>v. chanval c i = Some v \<and> v \<noteq> dmxframe s ! i)"
    using s'(3) changes_empty_iff [of c "dmxframe s" "[0..<dmxsize s]"] by auto
  have stored: "\<forall>i < dmxsize s. \<forall>v. chanval c i = Some v \<and> v \<noteq> dmxframe s ! i \<longrightarrow>
                dmxframe s' ! i = v \<and> Info_channel i v \<in> set (trace s')"
  proof (intro allI impI)
    fix i v assume i: "i < dmxsize s" and v: "chanval c i = Some v \<and> v \<noteq> dmxframe s ! i"
    have "dmxframe s' ! i = v" using s'(2) i v by (simp add: with_default_def)
    moreover have "(i, v) \<in> set (changes c (dmxframe s) [0..<dmxsize s])"
      using i v by (auto simp: changes_def)
    then have "Info_channel i v \<in> set (trace s')"
      unfolding s'(4) by force
    ultimately show "dmxframe s' ! i = v \<and> Info_channel i v \<in> set (trace s')" by simp
  qed
  show ?thesis using s'(1) upd stored s'(4) by blast
qed

theorem update_iff_level_differs_witness:
  "length (dmxframe demo_engine) = dmxsize demo_engine \<and>
   (\<exists>s'. scan demo_cycle [0..<dmxsize demo_engine] (demo_engine\<lparr>update := False\<rparr>) = Inr s' \<and>
      update s' \<and> dmxframe s' ! 0 = 2 \<and> Info_channel 0 2 \<in> set (trace s'))"
proof -
  have h: "length (dmxframe demo_engine) = dmxsize demo_engine"
    by (simp add: demo_engine_def)
  have z: "(0::nat) < dmxsize demo_engine \<and> (2::int) \<noteq> dmxframe demo_engine ! 0"
    by (simp add: demo_engine_def)
  obtain s' where s': "scan demo_cycle [0..<dmxsize demo_engine] (demo_engine\<lparr>update := False\<rparr>) = Inr s'"
    "update s' \<longleftrightarrow> (\<exists>i < dmxsize demo_engine. \<exists>v. chanval demo_cycle i = Some v \<and> v \<noteq> dmxframe demo_engine ! i)"
    "\<forall>i < dmxsize demo_engine. \<forall>v. chanval demo_cycle i = Some v \<and> v \<noteq> dmxframe demo_engine ! i \<longrightarrow>
                dmxframe s' ! i = v \<and> Info_channel i v \<in> set (trace s')"
    using update_iff_level_differs [OF h, of demo_cycle] by blast
  have "update s'" using s'(2) z demo_chanval_0 by blast
  moreover have "dmxframe s' ! 0 = 2 \<and> Info_channel 0 2 \<in> set (trace s')"
    using s'(3) z demo_chanval_0 by blast
  ultimately show ?thesis using h s'(1) by blast
qed

subsection \<open>The decision to broadcast\<close>

text \<open>
  C1. With the frame as long as the universe and a broadcast that returns, a pass of the
  loop scans all channels and then broadcasts the frame exactly when \<open>update\<close> is set
  (some level changed in this pass) or the clock reading exceeds \<open>prevtime\<close> by more
  than 0.5; in exactly those cases \<open>prevtime\<close> becomes the clock reading taken after
  the broadcast, and otherwise it keeps its value. Nothing else is added to the trace and
  the frame is the one the scan left.
\<close>

theorem broadcast_iff_dirty_or_overdue:
  assumes "length (dmxframe s) = dmxsize s" and "send c = Returns"
  shows "\<exists>s1 s2. scan c [0..<dmxsize s] (s\<lparr>update := False\<rparr>) = Inr s1 \<and>
           loop_once c s = Inr s2 \<and>
           trace s2 = trace s1 @ (if update s1 \<or> now_test c - prevtime s > 1 / 2
                                  then [BroadcastDMX (dmxframe s1) (address s)] else []) \<and>
           prevtime s2 = (if update s1 \<or> now_test c - prevtime s > 1 / 2
                          then now_sent c else prevtime s) \<and>
           dmxframe s2 = dmxframe s1"
proof -
  obtain s1 where s1: "scan c [0..<dmxsize s] (s\<lparr>update := False\<rparr>) = Inr s1"
    "address s1 = address s" "prevtime s1 = prevtime s"
    using scan_all [OF assms(1), of c] by blast
  let ?due = "update s1 \<or> now_test c - prevtime s > 1 / 2"
  let ?s2 = "if ?due then (emit (BroadcastDMX (dmxframe s1) (address s)) s1)\<lparr>prevtime := now_sent c\<rparr>
             else s1"
  have "transmit c s1 = Inr ?s2"
    using assms(2) s1(2,3) by (simp add: transmit_def broadcastDMX_Returns)
  then have "loop_once c s = Inr ?s2"
    using s1(1) by (simp add: loop_once_def)
  moreover have "trace ?s2 = trace s1 @ (if ?due then [BroadcastDMX (dmxframe s1) (address s)] else [])"
    by (simp add: emit_def)
  moreover have "prevtime ?s2 = (if ?due then now_sent c else prevtime s)"
    using s1(3) by simp
  moreover have "dmxframe ?s2 = dmxframe s1"
    by (simp add: emit_def)
  ultimately show ?thesis using s1(1) by blast
qed

theorem broadcast_iff_dirty_or_overdue_witness:
  "length (dmxframe demo_engine) = dmxsize demo_engine \<and> send demo_cycle = Returns \<and>
   (\<exists>s1 s2. scan demo_cycle [0..<dmxsize demo_engine] (demo_engine\<lparr>update := False\<rparr>) = Inr s1 \<and>
      loop_once demo_cycle demo_engine = Inr s2 \<and>
      trace s2 = trace s1 @ [BroadcastDMX (dmxframe s1) [0, 0, 3]] \<and> prevtime s2 = 1)"
proof -
  have h1: "length (dmxframe demo_engine) = dmxsize demo_engine"
    by (simp add: demo_engine_def)
  have h2: "send demo_cycle = Returns"
    by (simp add: demo_cycle_def)
  have due: "now_test demo_cycle - prevtime demo_engine > 1 / 2"
    by (simp add: demo_cycle_def demo_engine_def)
  have v: "now_sent demo_cycle = 1" "address demo_engine = [0, 0, 3]"
    by (simp_all add: demo_cycle_def demo_engine_def)
  show ?thesis
    using h1 h2 broadcast_iff_dirty_or_overdue [OF h1 h2] due v by auto
qed

subsection \<open>What no function changes\<close>

lemma continues_refl: "continues s s"
  by (simp add: continues_def)

lemma continues_trans: "continues s s' \<Longrightarrow> continues s' s'' \<Longrightarrow> continues s s''"
  unfolding continues_def by auto

lemma continues_emit:
  assumes "\<And>f a. ev = BroadcastDMX f a \<Longrightarrow>
             a = address s \<and> (length f = 512 \<or> length f = length (dmxframe s))"
  shows "continues s (emit ev s)"
  unfolding continues_def emit_def using assms by auto

lemma continues_prevtime: "continues s (s\<lparr>prevtime := t\<rparr>)"
  by (simp add: continues_def)

lemma continues_update: "continues s (s\<lparr>update := b\<rparr>)"
  by (simp add: continues_def)

lemma continues_and_then:
  assumes "continues s (final r)" and "\<And>s'. r = Inr s' \<Longrightarrow> continues s' (final (f s'))"
  shows "continues s (final (and_then r f))"
proof (cases r)
  case (Inl x)
  then show ?thesis using assms(1) by simp
next
  case (Inr s')
  then show ?thesis using assms continues_trans [of s s' "final (f s')"] by simp
qed

lemma continues_broadcastDMX:
  assumes "a = address s" and "length f = 512 \<or> length f = length (dmxframe s)"
  shows "continues s (final (broadcastDMX oc f a s))"
  unfolding final_broadcastDMX using assms by (intro continues_emit) simp

lemma continues_sleep: "continues s (final (sleep oc d s))"
  unfolding final_sleep by (intro continues_emit) simp

lemma continues_channel_step: "continues s (final (channel_step c i s))"
  by (auto simp: channel_step_def continues_def emit_def split: option.splits)

lemma continues_scan: "continues s (final (scan c idxs s))"
proof (induction idxs arbitrary: s)
  case Nil
  then show ?case by (simp add: continues_refl)
next
  case (Cons i idxs)
  show ?case
  proof (cases "channel_step c i s")
    case (Inl x)
    then show ?thesis using continues_channel_step [of s c i] by simp
  next
    case (Inr s')
    have "continues s s'" using Inr continues_channel_step [of s c i] by simp
    then have "continues s (final (scan c idxs s'))"
      using Cons.IH [of s'] by (rule continues_trans)
    then show ?thesis using Inr by simp
  qed
qed

lemma continues_transmit: "continues s (final (transmit c s))"
proof -
  have b: "continues s (final (and_then (broadcastDMX (send c) (dmxframe s) (address s) s)
                                 (\<lambda>s. Inr (s\<lparr>prevtime := now_sent c\<rparr>))))"
    by (intro continues_and_then continues_broadcastDMX) (simp_all add: continues_prevtime)
  show ?thesis
    using b by (simp add: transmit_def continues_refl)
qed

lemma continues_loop_once: "continues s (final (loop_once c s))"
  unfolding loop_once_def
proof (rule continues_and_then)
  show "continues s (final (scan c [0..<dmxsize s] (s\<lparr>update := False\<rparr>)))"
    using continues_trans [OF continues_update continues_scan] .
  show "\<And>s'. scan c [0..<dmxsize s] (s\<lparr>update := False\<rparr>) = Inr s' \<Longrightarrow>
          continues s' (final (transmit c s'))"
    by (rule continues_transmit)
qed

lemma continues_loop_forever: "continues s (final (loop_forever cycles s))"
proof (induction cycles arbitrary: s)
  case Nil
  then show ?case by (simp add: continues_refl)
next
  case (Cons c cycles)
  show ?case
  proof (cases "loop_once c s")
    case (Inl x)
    then show ?thesis using continues_loop_once [of s c] by simp
  next
    case s1: (Inr s1)
    have c1: "continues s s1" using s1 continues_loop_once [of s c] by simp
    show ?thesis
    proof (cases "sleep (signal c) (getfloat_delay c) s1")
      case (Inl x)
      have "continues s1 (final (Inl x :: result))"
        using Inl continues_sleep [of s1 "signal c" "getfloat_delay c"] by simp
      with c1 have "continues s (final (Inl x :: result))" by (rule continues_trans)
      then show ?thesis using s1 Inl by simp
    next
      case (Inr s2)
      have "continues s1 s2"
        using Inr continues_sleep [of s1 "signal c" "getfloat_delay c"] by simp
      with c1 have "continues s s2" by (rule continues_trans)
      then have "continues s (final (loop_forever cycles s2))"
        using Cons.IH [of s2] by (rule continues_trans)
      then show ?thesis using s1 Inr by simp
    qed
  qed
qed

subsection \<open>Start and stop\<close>

lemma start_empty:
  assumes "items_input p = []"
  shows "start p s0 = Inl (ValueError, s0\<lparr>address := [0, 0, getint_universe p], dmxsize := 0\<rparr>)"
  using assms by (simp add: start_def)

lemma start_final:
  assumes "items_input p \<noteq> []"
  shows "final (start p unbound) =
           \<lparr>address = [0, 0, getint_universe p], dmxsize = 512, dmxframe = replicate 512 0,
            prevtime = (if send_start p = Returns then now_start p else 0), update = False,
            trace = [Info_universe_size 512,
                     BroadcastDMX (replicate 512 0) [0, 0, getint_universe p]]\<rparr>"
  using assms
  by (cases "send_start p") (simp_all add: start_def unbound_def emit_def broadcastDMX_def)

lemma start_Inr_iff:
  "(\<exists>s. start p unbound = Inr s) \<longleftrightarrow> items_input p \<noteq> [] \<and> send_start p = Returns"
  by (cases "send_start p") (auto simp: start_def broadcastDMX_def Let_def)

lemma start_demo: "start demo_patch unbound = Inr demo_engine"
proof -
  have "items_input demo_patch \<noteq> [] \<and> send_start demo_patch = Returns"
    by (simp add: demo_patch_def)
  then obtain s where s: "start demo_patch unbound = Inr s"
    using start_Inr_iff [of demo_patch] by blast
  have "final (start demo_patch unbound) = demo_engine"
    by (subst start_final) (simp_all add: demo_patch_def demo_engine_def)
  then show ?thesis using s by simp
qed



lemma continues_stop: "continues s (final (stop sends naps s))"
proof -
  have e: "continues s (emit Success_stopping s)"
    by (intro continues_emit) simp
  have a: "address (emit Success_stopping s) = address s"
    by (simp add: emit_def)
  have tail: "continues s' (final (Inr (emit Success_done (emit Close s')) :: result))" for s'
  proof -
    have "continues s' (emit Close s')" by (intro continues_emit) simp
    moreover have "continues (emit Close s') (emit Success_done (emit Close s'))"
      by (intro continues_emit) simp
    ultimately have "continues s' (emit Success_done (emit Close s'))"
      by (rule continues_trans)
    then show ?thesis by simp
  qed
  have "continues (emit Success_stopping s) (final (stop sends naps s))"
    unfolding stop_def Let_def
    by (intro continues_and_then continues_broadcastDMX continues_sleep tail)
       (simp_all)
  with e show ?thesis by (rule continues_trans)
qed

subsection \<open>Whole runs\<close>

lemma snd_main:
  "snd (main p cycles sends naps) =
     (case start p unbound of
        Inl (e, s) \<Rightarrow> s
      | Inr s \<Rightarrow>
          (case loop_forever cycles s of
             Inr s' \<Rightarrow> s'
           | Inl (e, s') \<Rightarrow> if caught e then final (stop sends naps s') else s'))"
  by (auto simp: main_def final_def split: sum.splits prod.splits)

lemma main_empty:
  assumes "items_input p = []"
  shows "main p cycles sends naps =
           (Crashed ValueError, unbound\<lparr>address := [0, 0, getint_universe p], dmxsize := 0\<rparr>)"
  using start_empty [OF assms, of unbound] by (simp add: main_def)

lemma main_continues: "continues (final (start p unbound)) (snd (main p cycles sends naps))"
proof (cases "start p unbound")
  case (Inl x)
  then show ?thesis by (cases x) (simp add: snd_main continues_refl)
next
  case s0: (Inr s0)
  show ?thesis
  proof (cases "loop_forever cycles s0")
    case (Inr s')
    then show ?thesis
      using s0 continues_loop_forever [of s0 cycles] by (simp add: snd_main)
  next
    case (Inl x)
    obtain e s' where x: "x = (e, s')" by (cases x)
    have c1: "continues s0 s'"
      using Inl x continues_loop_forever [of s0 cycles] by simp
    show ?thesis
    proof (cases "caught e")
      case True
      have "continues s0 (final (stop sends naps s'))"
        using c1 continues_stop [of s' sends naps] by (rule continues_trans)
      then show ?thesis using s0 Inl x True by (simp add: snd_main)
    next
      case False
      then show ?thesis using s0 Inl x c1 by (simp add: snd_main)
    qed
  qed
qed

lemma main_started:
  assumes "items_input p \<noteq> []"
  shows "address (snd (main p cycles sends naps)) = [0, 0, getint_universe p] \<and>
         dmxsize (snd (main p cycles sends naps)) = 512 \<and>
         length (dmxframe (snd (main p cycles sends naps))) = 512 \<and>
         (\<exists>evs. trace (snd (main p cycles sends naps)) =
                   [Info_universe_size 512,
                    BroadcastDMX (replicate 512 0) [0, 0, getint_universe p]] @ evs \<and>
                 (\<forall>f a. BroadcastDMX f a \<in> set evs \<longrightarrow>
                    a = [0, 0, getint_universe p] \<and> length f = 512))"
  using main_continues [of p cycles sends naps]
  unfolding continues_def start_final [OF assms] by simp

lemma main_broadcasts:
  assumes "BroadcastDMX f a \<in> set (trace (snd (main p cycles sends naps)))"
  shows "a = [0, 0, getint_universe p] \<and> length f = 512"
proof (cases "items_input p = []")
  case True
  then have "trace (snd (main p cycles sends naps)) = []"
    by (simp add: main_empty unbound_def)
  then show ?thesis using assms by simp
next
  case False
  obtain evs where evs:
    "trace (snd (main p cycles sends naps)) =
       [Info_universe_size 512, BroadcastDMX (replicate 512 0) [0, 0, getint_universe p]] @ evs"
    "\<forall>f a. BroadcastDMX f a \<in> set evs \<longrightarrow> a = [0, 0, getint_universe p] \<and> length f = 512"
    using main_started [OF False, of cycles sends naps] by blast
  have "BroadcastDMX f a = BroadcastDMX (replicate 512 0) [0, 0, getint_universe p]
        \<or> BroadcastDMX f a \<in> set evs"
    using assms unfolding evs(1) by simp
  then show ?thesis
  proof
    assume "BroadcastDMX f a = BroadcastDMX (replicate 512 0) [0, 0, getint_universe p]"
    then show ?thesis by simp
  next
    assume "BroadcastDMX f a \<in> set evs"
    then show ?thesis using evs(2) by blast
  qed
qed

lemma main_address: "address (snd (main p cycles sends naps)) = [0, 0, getint_universe p]"
proof (cases "items_input p = []")
  case True
  then show ?thesis by (simp add: main_empty)
next
  case False
  then show ?thesis using main_started [OF False, of cycles sends naps] by blast
qed

lemma main_demo_blank:
  "BroadcastDMX (replicate 512 0) [0, 0, 3]
     \<in> set (trace (snd (main demo_patch [demo_cycle] (\<lambda>k. Returns) (\<lambda>k. Returns))))"
proof -
  have h: "items_input demo_patch \<noteq> []"
    by (simp add: demo_patch_def)
  have u: "getint_universe demo_patch = 3"
    by (simp add: demo_patch_def)
  obtain evs where
    "trace (snd (main demo_patch [demo_cycle] (\<lambda>k. Returns) (\<lambda>k. Returns))) =
       [Info_universe_size 512, BroadcastDMX (replicate 512 0) [0, 0, 3]] @ evs"
    using main_started [OF h, of "[demo_cycle]" "\<lambda>k. Returns" "\<lambda>k. Returns"] unfolding u by blast
  then show ?thesis by simp
qed

text \<open>
  C5. In every run, whatever the configured channels, the passes of the loop and the
  outcomes of the outside calls, every call of \<open>broadcastDMX\<close> (the blank frame of
  \<open>_start\<close>, the broadcasts on change, the maintenance broadcasts and those of
  \<open>_stop\<close>) is given a frame of exactly 512 levels; and once \<open>_start\<close> got past
  reading the input section, the frame held in the globals has length 512 and so has
  \<open>dmxsize\<close>, at the point the run has reached.
\<close>

theorem frame_always_512:
  "(\<forall>f a. BroadcastDMX f a \<in> set (trace (snd (main p cycles sends naps))) \<longrightarrow> length f = 512) \<and>
   (items_input p \<noteq> [] \<longrightarrow>
      length (dmxframe (snd (main p cycles sends naps))) = 512 \<and>
      dmxsize (snd (main p cycles sends naps)) = 512)"
proof (intro conjI allI impI)
  fix f a
  assume "BroadcastDMX f a \<in> set (trace (snd (main p cycles sends naps)))"
  then show "length f = 512" using main_broadcasts by blast
next
  assume "items_input p \<noteq> []"
  then show "length (dmxframe (snd (main p cycles sends naps))) = 512"
    using main_started [of p cycles sends naps] by blast
next
  assume "items_input p \<noteq> []"
  then show "dmxsize (snd (main p cycles sends naps)) = 512"
    using main_started [of p cycles sends naps] by blast
qed

theorem frame_always_512_witness:
  "items_input demo_patch \<noteq> [] \<and>
   BroadcastDMX (replicate 512 0) [0, 0, 3]
     \<in> set (trace (snd (main demo_patch [demo_cycle] (\<lambda>k. Returns) (\<lambda>k. Returns)))) \<and>
   length (replicate 512 (0::int)) = 512 \<and>
   length (dmxframe (snd (main demo_patch [demo_cycle] (\<lambda>k. Returns) (\<lambda>k. Returns)))) = 512 \<and>
   dmxsize (snd (main demo_patch [demo_cycle] (\<lambda>k. Returns) (\<lambda>k. Returns))) = 512"
proof -
  have h: "items_input demo_patch \<noteq> []"
    by (simp add: demo_patch_def)
  have "length (dmxframe (snd (main demo_patch [demo_cycle] (\<lambda>k. Returns) (\<lambda>k. Returns)))) = 512 \<and>
        dmxsize (snd (main demo_patch [demo_cycle] (\<lambda>k. Returns) (\<lambda>k. Returns))) = 512"
    using h frame_always_512 [of demo_patch "[demo_cycle]" "\<lambda>k. Returns" "\<lambda>k. Returns"] by blast
  then show ?thesis using h main_demo_blank by simp
qed

text \<open>
  C10. In every run the address held in the globals is \<open>[0, 0, universe]\<close>, net and
  sub-net being the literal 0 and the universe the configured number, and every call of
  \<open>broadcastDMX\<close> is given that address.
\<close>

theorem address_fixed:
  "address (snd (main p cycles sends naps)) = [0, 0, getint_universe p] \<and>
   (\<forall>f a. BroadcastDMX f a \<in> set (trace (snd (main p cycles sends naps))) \<longrightarrow>
      a = [0, 0, getint_universe p])"
proof (intro conjI allI impI)
  show "address (snd (main p cycles sends naps)) = [0, 0, getint_universe p]"
    by (rule main_address)
next
  fix f a
  assume "BroadcastDMX f a \<in> set (trace (snd (main p cycles sends naps)))"
  then show "a = [0, 0, getint_universe p]" using main_broadcasts by blast
qed

theorem address_fixed_witness:
  "BroadcastDMX (replicate 512 0) [0, 0, 3]
     \<in> set (trace (snd (main demo_patch [demo_cycle] (\<lambda>k. Returns) (\<lambda>k. Returns)))) \<and>
   address (snd (main demo_patch [demo_cycle] (\<lambda>k. Returns) (\<lambda>k. Returns))) = [0, 0, 3]"
proof -
  have u: "getint_universe demo_patch = 3"
    by (simp add: demo_patch_def)
  have "address (snd (main demo_patch [demo_cycle] (\<lambda>k. Returns) (\<lambda>k. Returns))) = [0, 0, 3]"
    using address_fixed [of demo_patch "[demo_cycle]" "\<lambda>k. Returns" "\<lambda>k. Returns"] unfolding u by blast
  then show ?thesis using main_demo_blank by simp
qed

text \<open>
  C9. When \<open>_start\<close> returns it has told the monitor the size, has broadcast one
  frame of 512 zeros to \<open>[0, 0, universe]\<close> and nothing else, holds that frame, and
  has set \<open>prevtime\<close> to the clock reading; in every run these two events come before
  everything the loop and \<open>_stop\<close> do.
\<close>

theorem start_blanks_universe:
  assumes "start p unbound = Inr s"
  shows "trace s = [Info_universe_size 512,
                    BroadcastDMX (replicate 512 0) [0, 0, getint_universe p]] \<and>
         dmxframe s = replicate 512 0 \<and> prevtime s = now_start p \<and>
         (\<forall>cycles sends naps. \<exists>evs. trace (snd (main p cycles sends naps)) = trace s @ evs)"
proof -
  have ok: "items_input p \<noteq> [] \<and> send_start p = Returns"
    using assms start_Inr_iff [of p] by blast
  then have f: "items_input p \<noteq> []" by simp
  have s: "s = \<lparr>address = [0, 0, getint_universe p], dmxsize = 512, dmxframe = replicate 512 0,
            prevtime = now_start p, update = False,
            trace = [Info_universe_size 512,
                     BroadcastDMX (replicate 512 0) [0, 0, getint_universe p]]\<rparr>"
    using start_final [OF f] assms ok by simp
  have "\<exists>evs. trace (snd (main p cycles sends naps)) = trace s @ evs" for cycles sends naps
    using main_started [OF f, of cycles sends naps] s by auto
  then show ?thesis using s by simp
qed

theorem start_blanks_universe_witness:
  "start demo_patch unbound = Inr demo_engine \<and>
   trace demo_engine = [Info_universe_size 512, BroadcastDMX (replicate 512 0) [0, 0, 3]] \<and>
   dmxframe demo_engine = replicate 512 0 \<and> prevtime demo_engine = 0 \<and>
   (\<exists>evs. trace (snd (main demo_patch [demo_cycle] (\<lambda>k. Returns) (\<lambda>k. Returns))) = trace demo_engine @ evs)"
proof -
  have u: "getint_universe demo_patch = 3" "now_start demo_patch = 0"
    by (simp_all add: demo_patch_def)
  have t: "trace demo_engine = [Info_universe_size 512, BroadcastDMX (replicate 512 0) [0, 0, 3]] \<and>
         dmxframe demo_engine = replicate 512 0 \<and> prevtime demo_engine = 0 \<and>
         (\<forall>cycles sends naps. \<exists>evs. trace (snd (main demo_patch cycles sends naps)) = trace demo_engine @ evs)"
    using start_blanks_universe [OF start_demo] unfolding u .
  then have "\<exists>evs. trace (snd (main demo_patch [demo_cycle] (\<lambda>k. Returns) (\<lambda>k. Returns))) = trace demo_engine @ evs"
    by blast
  then show ?thesis using start_demo t by blast
qed

subsection \<open>The shutdown sequence\<close>







subsection \<open>Channels without a value\<close>

lemma channel_step_absent: "chanval c i = None \<Longrightarrow> channel_step c i s = Inr s"
  by (simp add: channel_step_def)

lemma channel_step_keeps:
  assumes "chanval c i = None"
  shows "dmxframe (final (channel_step c j s)) ! i = dmxframe s ! i"
proof (cases "j = i")
  case True
  then show ?thesis using assms by (simp add: channel_step_absent)
next
  case False
  then show ?thesis
    by (auto simp: channel_step_def emit_def split: option.splits)
qed

lemma scan_keeps:
  assumes "chanval c i = None"
  shows "dmxframe (final (scan c idxs s)) ! i = dmxframe s ! i"
proof (induction idxs arbitrary: s)
  case Nil
  then show ?case by simp
next
  case (Cons j idxs)
  show ?case
  proof (cases "channel_step c j s")
    case (Inl x)
    then show ?thesis using channel_step_keeps [OF assms, of j s] by simp
  next
    case (Inr s')
    then show ?thesis
      using channel_step_keeps [OF assms, of j s] Cons.IH [of s'] by simp
  qed
qed

lemma transmit_frame: "dmxframe (final (transmit c s)) = dmxframe s"
  by (cases "send c") (simp_all add: transmit_def broadcastDMX_def emit_def)

lemma loop_once_keeps:
  assumes "chanval c i = None"
  shows "dmxframe (final (loop_once c s)) ! i = dmxframe s ! i"
proof (cases "scan c [0..<dmxsize s] (s\<lparr>update := False\<rparr>)")
  case (Inl x)
  then show ?thesis
    using scan_keeps [OF assms, of "[0..<dmxsize s]" "s\<lparr>update := False\<rparr>"]
    by (simp add: loop_once_def)
next
  case (Inr s')
  then show ?thesis
    using scan_keeps [OF assms, of "[0..<dmxsize s]" "s\<lparr>update := False\<rparr>"]
      transmit_frame [of c s']
    by (simp add: loop_once_def)
qed

lemma sleep_frame: "dmxframe (final (sleep oc d s)) = dmxframe s"
  by (simp add: final_sleep emit_def)

lemma loop_forever_keeps:
  assumes "\<forall>c\<in>set cycles. chanval c i = None"
  shows "dmxframe (final (loop_forever cycles s)) ! i = dmxframe s ! i"
  using assms
proof (induction cycles arbitrary: s)
  case Nil
  then show ?case by simp
next
  case (Cons c cycles)
  have a: "chanval c i = None" using Cons.prems by simp
  have rest: "\<forall>c\<in>set cycles. chanval c i = None" using Cons.prems by simp
  show ?case
  proof (cases "loop_once c s")
    case (Inl x)
    then show ?thesis using loop_once_keeps [OF a, of s] by simp
  next
    case s1: (Inr s1)
    have k1: "dmxframe s1 ! i = dmxframe s ! i"
      using s1 loop_once_keeps [OF a, of s] by simp
    show ?thesis
    proof (cases "sleep (signal c) (getfloat_delay c) s1")
      case (Inl x)
      then show ?thesis
        using s1 k1 sleep_frame [of "signal c" "getfloat_delay c" s1] by simp
    next
      case (Inr s2)
      have "dmxframe s2 = dmxframe s1"
        using Inr sleep_frame [of "signal c" "getfloat_delay c" s1] by simp
      then show ?thesis
        using s1 Inr k1 Cons.IH [OF rest, of s2] by simp
    qed
  qed
qed

text \<open>
  C6. If the control value of channel \<open>i\<close> is absent in each of a series of passes,
  then in each of them the loop body for that channel returns with the globals as they
  were, raising nothing, and after any number of these passes the frame holds at \<open>i\<close>
  the level it held before the first one, whatever the other channels did and however
  the series ended.
\<close>

theorem absent_channel_untouched:
  assumes "\<forall>c\<in>set cycles. getfloat_input c (chanstr i) = None"
  shows "(\<forall>c\<in>set cycles. \<forall>s'. channel_step c i s' = Inr s') \<and>
         (\<forall>n. dmxframe (final (loop_forever (take n cycles) s)) ! i = dmxframe s ! i)"
proof -
  have none: "\<forall>c\<in>set cycles. chanval c i = None"
    using assms chanval_absent by blast
  have "dmxframe (final (loop_forever (take n cycles) s)) ! i = dmxframe s ! i" for n
  proof (rule loop_forever_keeps)
    show "\<forall>c\<in>set (take n cycles). chanval c i = None"
      using none in_set_takeD by fast
  qed
  then show ?thesis using none channel_step_absent by blast
qed

lemma chanstr_4: "chanstr 4 = ''channel005''"
  by (simp add: chanstr_def format_03d_def decimal.simps digit_def eval_nat_numeral)

theorem absent_channel_untouched_witness:
  "getfloat_input demo_cycle (chanstr 4) = None \<and>
   set (replicate 10 demo_cycle) = {demo_cycle} \<and>
   channel_step demo_cycle 4 demo_engine = Inr demo_engine \<and>
   dmxframe (final (loop_forever (take 10 (replicate 10 demo_cycle)) demo_engine)) ! 4
     = dmxframe demo_engine ! 4"
proof -
  have a: "getfloat_input demo_cycle (chanstr 4) = None"
    by (simp add: chanstr_4 demo_cycle_def)
  have s: "set (replicate 10 demo_cycle) = {demo_cycle}"
    by simp
  have h: "\<forall>c\<in>set (replicate 10 demo_cycle). getfloat_input c (chanstr 4) = None"
    using a by simp
  show ?thesis
    using a s absent_channel_untouched [OF h, of demo_engine] by blast
qed

subsection \<open>A broadcast that raises\<close>

lemma scan_absent:
  assumes "\<forall>i\<in>set idxs. chanval c i = None"
  shows "scan c idxs s = Inr s"
  using assms by (induction idxs) (simp_all add: channel_step_absent)

lemma channel_step_prevtime: "prevtime (final (channel_step c i s)) = prevtime s"
  by (auto simp: channel_step_def emit_def split: option.splits)

lemma scan_prevtime: "prevtime (final (scan c idxs s)) = prevtime s"
proof (induction idxs arbitrary: s)
  case Nil
  then show ?case by simp
next
  case (Cons i idxs)
  show ?case
  proof (cases "channel_step c i s")
    case (Inl x)
    then show ?thesis using channel_step_prevtime [of c i s] by simp
  next
    case (Inr s')
    then show ?thesis using channel_step_prevtime [of c i s] Cons.IH [of s'] by simp
  qed
qed

lemma loop_forever_append:
  "loop_forever (xs @ ys) s =
     (case loop_forever xs s of Inl x \<Rightarrow> Inl x | Inr s' \<Rightarrow> loop_forever ys s')"
  by (induction xs arbitrary: s) (simp_all split: sum.splits)

lemma loop_once_Raises:
  assumes "scan c [0..<dmxsize s] (s\<lparr>update := False\<rparr>) = Inr s1"
    and "update s1 \<or> now_test c - prevtime s > 1 / 2"
    and "send c = Raises e"
  shows "loop_once c s = Inl (e, emit (BroadcastDMX (dmxframe s1) (address s1)) s1)"
proof -
  have "prevtime s1 = prevtime s"
    using assms(1) scan_prevtime [of c "[0..<dmxsize s]" "s\<lparr>update := False\<rparr>"] by simp
  then have "transmit c s1 = Inl (e, emit (BroadcastDMX (dmxframe s1) (address s1)) s1)"
    using assms(2,3) by (auto simp: transmit_def broadcastDMX_Raises)
  then show ?thesis using assms(1) by (simp add: loop_once_def)
qed

lemma main_Raises:
  assumes "start p unbound = Inr s0"
    and "loop_forever before s0 = Inr s"
    and "loop_once c s = Inl (e, s2)"
  shows "main p (before @ c # after) sends naps =
           (if caught e
            then (case stop sends naps s2 of
                    Inr s3 \<Rightarrow> (Exited, s3)
                  | Inl (e', s3) \<Rightarrow> (Crashed e', s3))
            else (Crashed e, s2))"
proof -
  have "loop_forever (before @ c # after) s0 = Inl (e, s2)"
    using assms(2,3) by (simp add: loop_forever_append)
  then show ?thesis
    using assms(1) by (simp add: main_def)
qed

lemma silent_scan:
  "scan silent_cycle [0..<dmxsize demo_engine] (demo_engine\<lparr>update := False\<rparr>) = Inr demo_engine"
proof -
  have "\<forall>i\<in>set [0..<dmxsize demo_engine]. chanval silent_cycle i = None"
    by (simp add: chanval_def silent_cycle_def)
  then have "scan silent_cycle [0..<dmxsize demo_engine] (demo_engine\<lparr>update := False\<rparr>)
               = Inr (demo_engine\<lparr>update := False\<rparr>)"
    by (rule scan_absent)
  then show ?thesis by (simp add: demo_engine_def)
qed

lemma silent_due:
  "now_test silent_cycle - prevtime demo_engine > 1 / 2" "send silent_cycle = Raises OSError"
  by (simp_all add: silent_cycle_def demo_cycle_def demo_engine_def)

text \<open>
  C8, as the specification states it, fails: nothing in \<open>_loop_once\<close> or
  \<open>_loop_forever\<close> handles an exception, and the handler of the main block takes three
  exception classes only. In the run below the first pass sends the maintenance frame,
  the socket raises \<open>OSError\<close>, and the process ends with that exception uncaught:
  the second pass never runs and the shutdown sequence is not sent.
\<close>

theorem send_failure_ends_process_counterexample:
  "main demo_patch [silent_cycle, demo_cycle] returning returning =
     (Crashed OSError,
      demo_engine\<lparr>trace := trace demo_engine @ [BroadcastDMX (replicate 512 0) [0, 0, 3]]\<rparr>)"
proof -
  have l: "loop_once silent_cycle demo_engine =
             Inl (OSError, emit (BroadcastDMX (dmxframe demo_engine) (address demo_engine)) demo_engine)"
    using silent_due by (intro loop_once_Raises [OF silent_scan]) simp_all
  have f: "loop_forever [] demo_engine = Inr demo_engine" by simp
  have "main demo_patch ([] @ silent_cycle # [demo_cycle]) returning returning =
          (Crashed OSError, emit (BroadcastDMX (dmxframe demo_engine) (address demo_engine)) demo_engine)"
    unfolding main_Raises [OF start_demo f l] by (simp add: caught_def)
  then show ?thesis by (simp add: emit_def demo_engine_def)
qed

text \<open>
  C8, amended. A broadcast that raises within a pass of the loop is not handled there:
  the exception leaves \<open>_loop_once\<close> right after the call, no later pass runs, and the
  run is over. If the exception is \<open>SystemExit\<close>, \<open>KeyboardInterrupt\<close> or
  \<open>RuntimeError\<close> the process exits through \<open>_stop\<close>; any other exception ends it
  uncaught, without the shutdown sequence.
\<close>

theorem raising_send_ends_run:
  assumes "start p unbound = Inr s0"
    and "loop_forever before s0 = Inr s"
    and "scan c [0..<dmxsize s] (s\<lparr>update := False\<rparr>) = Inr s1"
    and "update s1 \<or> now_test c - prevtime s > 1 / 2"
    and "send c = Raises e"
  shows "loop_once c s = Inl (e, emit (BroadcastDMX (dmxframe s1) (address s1)) s1) \<and>
         main p (before @ c # after) sends naps =
           (if caught e
            then (case stop sends naps (emit (BroadcastDMX (dmxframe s1) (address s1)) s1) of
                    Inr s3 \<Rightarrow> (Exited, s3)
                  | Inl (e', s3) \<Rightarrow> (Crashed e', s3))
            else (Crashed e, emit (BroadcastDMX (dmxframe s1) (address s1)) s1)) \<and>
         fst (main p (before @ c # after) sends naps) \<noteq> Running"
proof -
  let ?s2 = "emit (BroadcastDMX (dmxframe s1) (address s1)) s1"
  have l: "loop_once c s = Inl (e, ?s2)"
    using assms(3,4,5) by (rule loop_once_Raises)
  have m: "main p (before @ c # after) sends naps =
             (if caught e
              then (case stop sends naps ?s2 of Inr s3 \<Rightarrow> (Exited, s3) | Inl (e', s3) \<Rightarrow> (Crashed e', s3))
              else (Crashed e, ?s2))"
    using assms(1,2) l by (rule main_Raises)
  have "fst (main p (before @ c # after) sends naps) \<noteq> Running"
    unfolding m by (simp split: sum.splits prod.splits)
  then show ?thesis using l m by simp
qed

theorem raising_send_ends_run_witness:
  "start demo_patch unbound = Inr demo_engine \<and>
   loop_forever [] demo_engine = Inr demo_engine \<and>
   scan silent_cycle [0..<dmxsize demo_engine] (demo_engine\<lparr>update := False\<rparr>) = Inr demo_engine \<and>
   now_test silent_cycle - prevtime demo_engine > 1 / 2 \<and>
   send silent_cycle = Raises OSError \<and>
   fst (main demo_patch ([] @ silent_cycle # [demo_cycle]) (\<lambda>k. Returns) (\<lambda>k. Returns)) \<noteq> Running"
proof -
  have f: "loop_forever [] demo_engine = Inr demo_engine" by simp
  have d: "update demo_engine \<or> now_test silent_cycle - prevtime demo_engine > 1 / 2"
    using silent_due(1) by simp
  have "fst (main demo_patch ([] @ silent_cycle # [demo_cycle]) (\<lambda>k. Returns) (\<lambda>k. Returns)) \<noteq> Running"
    using raising_send_ends_run [OF start_demo f silent_scan d silent_due(2)] by blast
  then show ?thesis using start_demo f silent_scan silent_due by blast
qed

end
